theory Spec2Isabelle
  imports Main "HOL-Library.Word" "HOL-Library.Sublist" "HOL-Library.Multiset"
begin

section \<open>Bytes, files and input streams\<close>

text \<open>
  The scanner of \<^verbatim>\<open>find_sig.cpp\<close> reads files through \<^verbatim>\<open>std::ifstream\<close> and works on
  \<^verbatim>\<open>std::vector<uint8_t>\<close>. A byte is an 8-bit word, a vector of bytes a list. Sizes are
  \<^verbatim>\<open>size_t\<close>; they are natural numbers here: the only sums formed are
  \<^verbatim>\<open>signature.size() + EXTRA_BUFFER\<close> and \<^verbatim>\<open>buffer_size + OVERLAP\<close>, on the size of a
  vector that already sits in memory, far from the 64-bit wrap-around.
\<close>

type_synonym byte = "8 word"
type_synonym path = string

text \<open>
  What a path leads to when a stream is opened on it: a file that cannot be opened, a file
  whose reads deliver the given bytes up to end of file, or a file whose reads deliver the
  given bytes and then fail with a read error.
\<close>

datatype disk_file = Unopenable | Readable "byte list" | Faulty "byte list"

fun delivered :: "disk_file \<Rightarrow> byte list" where
  "delivered Unopenable = []"
| "delivered (Readable bs) = bs"
| "delivered (Faulty bs) = bs"

text \<open>
  The state of a \<^verbatim>\<open>std::ifstream\<close>: the bytes it will still deliver and whether
  \<^verbatim>\<open>fail()\<close> holds (failbit or badbit), which is what \<^verbatim>\<open>if (!file)\<close> and
  \<^verbatim>\<open>while (file)\<close> test.
\<close>

record ifstream =
  pending :: "byte list"
  failed :: bool

definition open_ifstream :: "disk_file \<Rightarrow> ifstream" where
  "open_ifstream f =
     (case f of
        Unopenable \<Rightarrow> \<lparr>pending = [], failed = True\<rparr>
      | Readable bs \<Rightarrow> \<lparr>pending = bs, failed = False\<rparr>
      | Faulty bs \<Rightarrow> \<lparr>pending = bs, failed = False\<rparr>)"

text \<open>
  \<^verbatim>\<open>file.read(p, n)\<close> followed by \<^verbatim>\<open>file.gcount()\<close>: the bytes stored at \<^verbatim>\<open>p\<close> (their
  number is \<^verbatim>\<open>gcount\<close>) and the stream afterwards. A stream that has failed delivers
  nothing; a read that gets fewer than \<^verbatim>\<open>n\<close> bytes (end of file or read error) sets the
  failure state.
\<close>

definition istream_read :: "nat \<Rightarrow> ifstream \<Rightarrow> byte list \<times> ifstream" where
  "istream_read n f =
     (if failed f then ([], f)
      else (take n (pending f),
            \<lparr>pending = drop n (pending f), failed = (length (pending f) < n)\<rparr>))"

section \<open>The classifier: isELFFile\<close>

text \<open>
  \<^verbatim>\<open>header\<close> is a \<^verbatim>\<open>char[4]\<close>; each comparison promotes the \<^verbatim>\<open>char\<close> to \<^verbatim>\<open>int\<close>, so
  a byte is read as a signed value (\<^verbatim>\<open>char\<close> is signed on the targets of the README's
  \<^verbatim>\<open>g++\<close>). The constants are \<^verbatim>\<open>0x7F\<close>, \<^verbatim>\<open>'E'\<close> = 69, \<^verbatim>\<open>'L'\<close> = 76, \<^verbatim>\<open>'F'\<close> = 70.
\<close>

definition isELFFile :: "disk_file \<Rightarrow> bool" where
  "isELFFile f =
     (let file = open_ifstream f in
      if failed file then False
      else
        let header = fst (istream_read 4 file) in
        if length header < 4 then False
        else sint (header ! 0) = 0x7F \<and> sint (header ! 1) = 69 \<and>
             sint (header ! 2) = 76 \<and> sint (header ! 3) = 70)"

definition ELF_MAGIC :: "byte list" where
  "ELF_MAGIC = [0x7F, 0x45, 0x4C, 0x46]"

text \<open>The signature of the test suite, \<^verbatim>\<open>SIGNATURE = {'c', 'r', 'y', 'p', 't', 'y'}\<close>.\<close>

definition crypty :: "byte list" where
  "crypty = [0x63, 0x72, 0x79, 0x70, 0x74, 0x79]"

section \<open>The matcher: containsSignatureBuffered\<close>

definition MIN_BUFFER_SIZE :: nat where
  "MIN_BUFFER_SIZE = 4096"

definition EXTRA_BUFFER :: nat where
  "EXTRA_BUFFER = 1024"

text \<open>\<^verbatim>\<open>OVERLAP\<close> and \<^verbatim>\<open>buffer_size\<close> are fixed from the signature before the loop.\<close>

definition OVERLAP :: "byte list \<Rightarrow> nat" where
  "OVERLAP signature = length signature - 1"

definition buffer_size :: "byte list \<Rightarrow> nat" where
  "buffer_size signature = max MIN_BUFFER_SIZE (length signature + EXTRA_BUFFER)"

datatype error = OutOfBounds

text \<open>
  \<^verbatim>\<open>std::copy(first, last, d)\<close> inside one vector, the iterators given as offsets from
  \<^verbatim>\<open>begin()\<close>. An iterator before \<^verbatim>\<open>begin()\<close> or past \<^verbatim>\<open>end()\<close> is undefined behaviour in
  C++; it is the error value here. The destination never lies after the start of the
  source in this program, so copying left to right gives the bytes the source range held
  before the call.
\<close>

definition std_copy :: "byte list \<Rightarrow> int \<Rightarrow> int \<Rightarrow> nat \<Rightarrow> error + byte list" where
  "std_copy buf src_first src_last d =
     (if src_first < 0 \<or> src_last < src_first \<or> int (length buf) < src_last
         \<or> length buf < d + nat (src_last - src_first)
      then Inl OutOfBounds
      else Inr (take d buf @ take (nat (src_last - src_first)) (drop (nat src_first) buf)
                @ drop (d + nat (src_last - src_first)) buf))"

text \<open>
  \<^verbatim>\<open>std::search(first, last, s_first, s_last)\<close> as the offset of the first occurrence of
  the needle, or the length of the haystack (the iterator \<^verbatim>\<open>last\<close>) when there is none.
\<close>

fun std_search :: "byte list \<Rightarrow> byte list \<Rightarrow> nat" where
  "std_search [] needle = 0"
| "std_search (h # t) needle =
     (if prefix needle (h # t) then 0 else Suc (std_search t needle))"

text \<open>
  The variables of the loop. \<^verbatim>\<open>requests\<close> is a log, not a variable of the source: the
  sizes passed to \<^verbatim>\<open>file.read\<close> so far.
\<close>

record scan_state =
  buffer :: "byte list"
  bytesRead :: nat
  stream :: ifstream
  requests :: "nat list"

text \<open>Lines 151 to 155: the carry-over at the head of each iteration.\<close>

definition carry_over :: "byte list \<Rightarrow> scan_state \<Rightarrow> error + byte list" where
  "carry_over signature st =
     (if OVERLAP signature \<le> bytesRead st then
        std_copy (buffer st) (int (length (buffer st)) - int (OVERLAP signature))
                 (int (length (buffer st))) 0
      else if 0 < bytesRead st then
        std_copy (buffer st) (int (bytesRead st) - int (OVERLAP signature))
                 (int (bytesRead st)) 0
      else Inr (buffer st))"

text \<open>
  \<^verbatim>\<open>file.read(buffer.data() + OVERLAP, buffer_size)\<close> stores the bytes it got at offset
  \<^verbatim>\<open>OVERLAP\<close> and leaves the rest of the buffer as it was.
\<close>

definition store_at :: "byte list \<Rightarrow> nat \<Rightarrow> byte list \<Rightarrow> byte list" where
  "store_at buf off chunk = take off buf @ chunk @ drop (off + length chunk) buf"

text \<open>
  One pass through the body of \<^verbatim>\<open>while (file)\<close>, lines 150 to 169: either the function
  is left with a result, or the loop goes round again.
\<close>

datatype iteration = Done "error + bool" scan_state | Again scan_state

definition loop_body :: "byte list \<Rightarrow> scan_state \<Rightarrow> iteration" where
  "loop_body signature st =
     (if failed (stream st) then Done (Inr False) st
      else
        case carry_over signature st of
          Inl e \<Rightarrow> Done (Inl e) st
        | Inr buf1 \<Rightarrow>
            let (chunk, file') = istream_read (buffer_size signature) (stream st);
                buf2 = store_at buf1 (OVERLAP signature) chunk;
                totalBytes = length chunk + OVERLAP signature;
                st' = \<lparr>buffer = buf2, bytesRead = length chunk, stream = file',
                       requests = requests st @ [buffer_size signature]\<rparr>
            in
              if std_search (take totalBytes buf2) signature \<noteq> totalBytes
              then Done (Inr True) st'
              else if length chunk < buffer_size signature then Done (Inr False) st'
              else Again st')"

lemma loop_body_Again_shrinks:
  assumes "loop_body signature st = Again st'"
  shows "length (pending (stream st')) < length (pending (stream st))"
proof -
  have pos: "0 < buffer_size signature"
    by (simp add: buffer_size_def MIN_BUFFER_SIZE_def)
  from assms show ?thesis
    using pos
    by (auto simp: loop_body_def istream_read_def Let_def
             split: if_splits sum.splits)
qed

function scan_loop :: "byte list \<Rightarrow> scan_state \<Rightarrow> (error + bool) \<times> scan_state" where
  "scan_loop signature st =
     (case loop_body signature st of
        Done r st' \<Rightarrow> (r, st')
      | Again st' \<Rightarrow> scan_loop signature st')"
  by pat_completeness auto
termination
  by (relation "measure (\<lambda>(signature, st). length (pending (stream st)))")
     (auto dest: loop_body_Again_shrinks)

declare scan_loop.simps [simp del]

text \<open>
  The states in which the head of the loop is reached, in order; the first is the state
  set up before the loop.
\<close>

function loop_heads :: "byte list \<Rightarrow> scan_state \<Rightarrow> scan_state list" where
  "loop_heads signature st =
     st # (case loop_body signature st of
             Done r st' \<Rightarrow> []
           | Again st' \<Rightarrow> loop_heads signature st')"
  by pat_completeness auto
termination
  by (relation "measure (\<lambda>(signature, st). length (pending (stream st)))")
     (auto dest: loop_body_Again_shrinks)

declare loop_heads.simps [simp del]

text \<open>
  Lines 147 and 148: the buffer is allocated once, zero-filled, before the loop, and
  \<^verbatim>\<open>bytesRead\<close> starts at 0.
\<close>

definition initial_state :: "byte list \<Rightarrow> ifstream \<Rightarrow> scan_state" where
  "initial_state signature file =
     \<lparr>buffer = replicate (buffer_size signature + OVERLAP signature) 0,
      bytesRead = 0, stream = file, requests = []\<rparr>"

text \<open>The whole function, with the final loop state kept beside the result.\<close>

definition scan_run :: "disk_file \<Rightarrow> byte list \<Rightarrow> (error + bool) \<times> scan_state option" where
  "scan_run f signature =
     (if signature = [] then (Inr False, None)
      else
        let file = open_ifstream f in
        if failed file then (Inr False, None)
        else
          case scan_loop signature (initial_state signature file) of
            (r, st) \<Rightarrow> (r, Some st))"

definition containsSignatureBuffered :: "disk_file \<Rightarrow> byte list \<Rightarrow> error + bool" where
  "containsSignatureBuffered f signature = fst (scan_run f signature)"

section \<open>Units of work and the scan unit\<close>

text \<open>
  What the program writes: the lines of \<^verbatim>\<open>main\<close> on \<^verbatim>\<open>std::cout\<close> and \<^verbatim>\<open>std::cerr\<close>, in the
  order in which they are written. The two per-file records are the sink of the scan.
\<close>

datatype event =
    Usage
  | ConfigError string
  | ScanStarted
  | TraversalError string
  | InfectedRec path
  | ErrorRec path string
  | ScanCompleted

text \<open>
  A \<^verbatim>\<open>std::function<void()>\<close> is seen through what running it does: the events it writes,
  and whether it returns or throws. An exception is a \<^verbatim>\<open>std::exception\<close> with its
  \<^verbatim>\<open>what()\<close>, or anything else. \<open>Undefined\<close> is a unit whose execution has undefined
  behaviour.
\<close>

datatype exn = StdException string | OtherException

datatype outcome = Returned "event list" | Threw "event list" exn | Undefined

type_synonym task = outcome

text \<open>
  The body of the \<^verbatim>\<open>try\<close> block of the lambda that \<^verbatim>\<open>main\<close> submits (lines 214 to 219).
  The file is opened twice, by \<^verbatim>\<open>isELFFile\<close> and by \<^verbatim>\<open>containsSignatureBuffered\<close>; the two
  arguments are what the path leads to at each of the two moments.
\<close>

definition scan_try :: "path \<Rightarrow> byte list \<Rightarrow> disk_file \<Rightarrow> disk_file \<Rightarrow> outcome" where
  "scan_try p signature at_classify at_match =
     (if \<not> isELFFile at_classify then Returned []
      else
        case containsSignatureBuffered at_match signature of
          Inl e \<Rightarrow> Undefined
        | Inr found \<Rightarrow> if found then Returned [InfectedRec p] else Returned [])"

text \<open>The handler of the lambda, \<^verbatim>\<open>catch (const std::exception& e)\<close> (lines 221 to 224).\<close>

definition catch_std_exception :: "path \<Rightarrow> outcome \<Rightarrow> outcome" where
  "catch_std_exception p out =
     (case out of
        Returned es \<Rightarrow> Returned es
      | Threw es e \<Rightarrow>
          (case e of
             StdException msg \<Rightarrow> Returned (es @ [ErrorRec p msg])
           | OtherException \<Rightarrow> Threw es OtherException)
      | Undefined \<Rightarrow> Undefined)"

definition scan_unit :: "path \<Rightarrow> byte list \<Rightarrow> disk_file \<Rightarrow> disk_file \<Rightarrow> task" where
  "scan_unit p signature at_classify at_match =
     catch_std_exception p (scan_try p signature at_classify at_match)"

section \<open>The thread pool and the main thread\<close>

text \<open>
  The threads of the program share the task queue, the flag \<^verbatim>\<open>stop\<close> and the output
  streams. A run is an interleaving of atomic actions. A worker is waiting at the head of
  its loop, running the task it took from the queue, gone after \<^verbatim>\<open>return\<close>, or brought
  down by a task with undefined behaviour. \<open>submitted\<close> and \<open>executed\<close> are logs, not
  variables of the source.
\<close>

datatype wstate = Waiting | Running task | Exited | Crashed task

record sys =
  created :: bool
  workers :: "wstate list"
  tasks :: "task list"
  stop :: bool
  sink :: "event list"
  submitted :: "task list"
  executed :: "task list"

text \<open>
  The first six actions are those of the main thread: a line written, the constructor of
  the pool, \<^verbatim>\<open>submit\<close>, \<^verbatim>\<open>std::cin.get()\<close>, and the two halves of the destructor (line 73
  and 74, then the joins of lines 75 and 76). The last three are those of worker \<open>i\<close>.
\<close>

datatype action =
    Print event
  | CreatePool nat
  | Submit task
  | ReadStdin
  | BeginShutdown
  | Join
  | Claim nat
  | Finish nat
  | Exit nat

definition boot :: sys where
  "boot = \<lparr>created = False, workers = [], tasks = [], stop = False, sink = [],
           submitted = [], executed = []\<rparr>"

text \<open>
  One action, or \<open>None\<close> where the thread cannot take it in this state.
  \<^item> \<open>Claim i\<close> is the critical section of \<^verbatim>\<open>workerThread\<close> (lines 92 to 100) when it ends
    with the pop: the wait is over because the queue is not empty.
  \<^item> \<open>Exit i\<close> is the same section when it ends with \<^verbatim>\<open>return\<close>: \<^verbatim>\<open>stop\<close> is set and the queue
    is empty.
  \<^item> \<open>Finish i\<close> is \<^verbatim>\<open>try { task(); } catch (...) { }\<close>: what the task wrote reaches the
    output, and the worker is back at the head of its loop whether the task returned or
    threw; the handler is empty.
  \<^item> \<open>Join\<close> returns once every worker is gone.
  A worker that could act may also be kept waiting (a wake-up that reaches no waiting
  thread is lost); every run of the program is an interleaving of these actions.
\<close>

fun step :: "action \<Rightarrow> sys \<Rightarrow> sys option" where
  "step (Print e) s = Some (s\<lparr>sink := sink s @ [e]\<rparr>)"
| "step (CreatePool n) s =
     (if created s then None
      else Some (s\<lparr>created := True, workers := replicate n Waiting, stop := False\<rparr>))"
| "step (Submit t) s =
     (if created s then Some (s\<lparr>tasks := tasks s @ [t], submitted := submitted s @ [t]\<rparr>)
      else None)"
| "step ReadStdin s = Some s"
| "step BeginShutdown s = (if created s then Some (s\<lparr>stop := True\<rparr>) else None)"
| "step Join s =
     (if created s \<and> list_all (\<lambda>w. w = Exited) (workers s) then Some s else None)"
| "step (Claim i) s =
     (if i < length (workers s) \<and> workers s ! i = Waiting then
        (case tasks s of
           [] \<Rightarrow> None
         | t # q \<Rightarrow> Some (s\<lparr>workers := (workers s)[i := Running t], tasks := q\<rparr>))
      else None)"
| "step (Finish i) s =
     (if i < length (workers s) then
        (case workers s ! i of
           Running t \<Rightarrow>
             (case t of
                Returned es \<Rightarrow>
                  Some (s\<lparr>workers := (workers s)[i := Waiting], sink := sink s @ es,
                          executed := executed s @ [t]\<rparr>)
              | Threw es e \<Rightarrow>
                  Some (s\<lparr>workers := (workers s)[i := Waiting], sink := sink s @ es,
                          executed := executed s @ [t]\<rparr>)
              | Undefined \<Rightarrow> Some (s\<lparr>workers := (workers s)[i := Crashed t]\<rparr>))
         | _ \<Rightarrow> None)
      else None)"
| "step (Exit i) s =
     (if i < length (workers s) \<and> workers s ! i = Waiting \<and> stop s \<and> tasks s = []
      then Some (s\<lparr>workers := (workers s)[i := Exited]\<rparr>)
      else None)"

fun exec :: "action list \<Rightarrow> sys \<Rightarrow> sys option" where
  "exec [] s = Some s"
| "exec (a # as) s = (case step a s of None \<Rightarrow> None | Some s' \<Rightarrow> exec as s')"

text \<open>The state right after the constructor of a pool with \<open>n\<close> workers.\<close>

definition pool_init :: "nat \<Rightarrow> sys" where
  "pool_init n = boot\<lparr>created := True, workers := replicate n Waiting\<rparr>"


text \<open>
  The units a schedule submits, in order, and the caller's duty that nothing is submitted
  once the shutdown has begun.
\<close>

fun units_of :: "action list \<Rightarrow> task list" where
  "units_of [] = []"
| "units_of (Submit t # as) = t # units_of as"
| "units_of (a # as) = units_of as"



text \<open>
  What \<^verbatim>\<open>main\<close> is given: the number of arguments, what \<^verbatim>\<open>load_signature\<close> yields (the
  message of its exception, or the bytes of the file), what the directory walk yields (the
  message of its exception, or the regular files), \<^verbatim>\<open>std::thread::hardware_concurrency()\<close>,
  and the files as the two opens of a scan unit find them.
\<close>

record environment =
  argc :: nat
  signature_file :: "string + byte list"
  directory :: "string + path list"
  hardware_concurrency :: nat
  at_classify :: "path \<Rightarrow> disk_file"
  at_match :: "path \<Rightarrow> disk_file"

text \<open>
  \<^verbatim>\<open>main\<close>: the actions of the main thread in program order, and the value it returns.
  The pool is a local variable declared after the walk; its destructor runs when \<^verbatim>\<open>main\<close>
  leaves its scope, after the last statement.
\<close>

definition main :: "environment \<Rightarrow> action list \<times> int" where
  "main env =
     (if argc env \<noteq> 3 then ([Print Usage], 1)
      else
        (case signature_file env of
           Inl msg \<Rightarrow> ([Print (ConfigError msg)], 1)
         | Inr signature \<Rightarrow>
             (if signature = [] then ([Print (ConfigError ''Signature file is empty.'')], 1)
              else
                (case directory env of
                   Inl msg \<Rightarrow> ([Print ScanStarted, Print (TraversalError msg)], 1)
                 | Inr files \<Rightarrow>
                     ([Print ScanStarted, CreatePool (hardware_concurrency env)]
                      @ map (\<lambda>p. Submit (scan_unit p signature (at_classify env p)
                                                    (at_match env p))) files
                      @ [Print ScanCompleted, ReadStdin, BeginShutdown, Join],
                      0)))))"

text \<open>
  A run of the test suite's kind: one worker, and one file under the root, an ELF file that
  holds the signature.
\<close>

definition infected_elf :: "byte list" where
  "infected_elf = ELF_MAGIC @ crypty"

definition demo_env :: environment where
  "demo_env =
     \<lparr>argc = 3, signature_file = Inr crypty, directory = Inr [''inf1''],
      hardware_concurrency = 1,
      at_classify = (\<lambda>p. Readable infected_elf),
      at_match = (\<lambda>p. Readable infected_elf)\<rparr>"

text \<open>Whether an action is a worker's; the others are the main thread's.\<close>

fun by_worker :: "action \<Rightarrow> bool" where
  "by_worker (Claim i) = True"
| "by_worker (Finish i) = True"
| "by_worker (Exit i) = True"
| "by_worker a = False"

text \<open>
  A run of \<^verbatim>\<open>main\<close> on \<open>demo_env\<close>: the main thread's actions in program order, and the
  worker scanning the file while the main thread waits in \<^verbatim>\<open>std::cin.get()\<close>.
\<close>

definition demo_run :: "action list" where
  "demo_run =
     [Print ScanStarted, CreatePool 1, Submit (Returned [InfectedRec ''inf1'']),
      Print ScanCompleted, ReadStdin, Claim 0, Finish 0, BeginShutdown, Exit 0, Join]"




text \<open>
  A file of 9000 bytes \<^verbatim>\<open>'A'\<close>, more than two chunks for the signature of the test suite.
\<close>

definition long_clean :: "byte list" where
  "long_clean = replicate 9000 0x41"

section \<open>Notions for the proofs\<close>

text \<open>
  The bytes that the carry-over of the coming iteration puts at the front of the buffer:
  the last \<^verbatim>\<open>OVERLAP\<close> bytes after a read that counted, the untouched front otherwise.
  And the invariant of the loop head: the buffer keeps its allocated length, and
  \<^verbatim>\<open>bytesRead\<close> is 0 or a full chunk.
\<close>

definition carried :: "byte list \<Rightarrow> scan_state \<Rightarrow> byte list" where
  "carried signature st =
     (if OVERLAP signature \<le> bytesRead st then drop (buffer_size signature) (buffer st)
      else take (OVERLAP signature) (buffer st))"

definition scan_inv :: "byte list \<Rightarrow> scan_state \<Rightarrow> bool" where
  "scan_inv signature st \<longleftrightarrow>
     length (buffer st) = buffer_size signature + OVERLAP signature \<and>
     (bytesRead st = 0 \<or> bytesRead st = buffer_size signature)"

text \<open>The state an iteration leaves behind, written without the buffer operations.\<close>

definition next_state :: "byte list \<Rightarrow> scan_state \<Rightarrow> scan_state" where
  "next_state signature st =
     (let chunk = take (buffer_size signature) (pending (stream st)) in
      \<lparr>buffer = carried signature st @ chunk
                 @ drop (OVERLAP signature + length chunk) (buffer st),
       bytesRead = length chunk,
       stream = \<lparr>pending = drop (buffer_size signature) (pending (stream st)),
                 failed = (length (pending (stream st)) < buffer_size signature)\<rparr>,
       requests = requests st @ [buffer_size signature]\<rparr>)"




section \<open>Properties of the matcher\<close>

lemma std_search_le: "std_search hay needle \<le> length hay"
  by (induction hay) auto

lemma std_search_found:
  "needle \<noteq> [] \<Longrightarrow> (std_search hay needle \<noteq> length hay) = sublist needle hay"
proof (induction hay)
  case Nil
  then show ?case by simp
next
  case (Cons h t)
  then show ?case
    by (auto simp: sublist_Cons_right)
qed

lemma OVERLAP_less_buffer_size: "OVERLAP signature < buffer_size signature"
  by (simp add: OVERLAP_def buffer_size_def EXTRA_BUFFER_def)

lemma length_carried: "scan_inv signature st \<Longrightarrow> length (carried signature st) = OVERLAP signature"
  using OVERLAP_less_buffer_size [of signature]
  by (auto simp: carried_def scan_inv_def)

lemma carry_over_inv:
  assumes "scan_inv signature st"
  shows "carry_over signature st = Inr (carried signature st @ drop (OVERLAP signature) (buffer st))"
proof (cases "OVERLAP signature \<le> bytesRead st")
  case True
  with assms show ?thesis
    by (simp add: carry_over_def std_copy_def carried_def scan_inv_def nat_diff_distrib')
next
  case False
  with assms OVERLAP_less_buffer_size [of signature] have "bytesRead st = 0"
    by (auto simp: scan_inv_def)
  with False show ?thesis
    by (simp add: carry_over_def carried_def)
qed

lemma take_length_append: "length xs = n \<Longrightarrow> take n (xs @ ys) = xs"
  by simp

lemma loop_body_inv:
  assumes inv: "scan_inv signature st" and ok: "\<not> failed (stream st)" and ne: "signature \<noteq> []"
  shows "loop_body signature st =
     (if sublist signature (carried signature st
                            @ take (buffer_size signature) (pending (stream st)))
      then Done (Inr True) (next_state signature st)
      else if length (pending (stream st)) < buffer_size signature
      then Done (Inr False) (next_state signature st)
      else Again (next_state signature st))"
proof -
  let ?W = "carried signature st"
  let ?C = "buffer_size signature"
  let ?R = "pending (stream st)"
  define chunk where "chunk = take ?C ?R"
  define st' where "st' = next_state signature st"
  have lw: "length ?W = OVERLAP signature" by (rule length_carried [OF inv])
  have rd: "istream_read ?C (stream st)
            = (chunk, \<lparr>pending = drop ?C ?R, failed = (length ?R < ?C)\<rparr>)"
    using ok by (simp add: istream_read_def chunk_def)
  have buf2: "store_at (?W @ drop (OVERLAP signature) (buffer st)) (OVERLAP signature) chunk
      = ?W @ chunk @ drop (OVERLAP signature + length chunk) (buffer st)"
    using lw by (simp add: store_at_def add.commute)
  have win: "take (length chunk + OVERLAP signature)
               (?W @ chunk @ drop (OVERLAP signature + length chunk) (buffer st))
             = ?W @ chunk"
    using take_length_append [of "?W @ chunk" "length chunk + OVERLAP signature"] lw
    by simp
  have len: "length (?W @ chunk) = length chunk + OVERLAP signature"
    using lw by simp
  have found: "(std_search (?W @ chunk) signature \<noteq> length chunk + OVERLAP signature)
      = sublist signature (?W @ chunk)"
    unfolding len [symmetric] by (rule std_search_found [OF ne])
  have short: "(length chunk < ?C) = (length ?R < ?C)"
    by (auto simp: chunk_def)
  have ns: "\<lparr>buffer = ?W @ chunk @ drop (OVERLAP signature + length chunk) (buffer st),
             bytesRead = length chunk,
             stream = \<lparr>pending = drop ?C ?R, failed = (length ?R < ?C)\<rparr>,
             requests = requests st @ [?C]\<rparr> = st'"
    by (simp add: st'_def next_state_def Let_def chunk_def)
  have "loop_body signature st =
     (if sublist signature (?W @ chunk) then Done (Inr True) st'
      else if length ?R < ?C then Done (Inr False) st'
      else Again st')"
    unfolding loop_body_def carry_over_inv [OF inv] rd
    using ok by (simp only: buf2 win found short ns Let_def prod.case sum.case if_False)
  then show ?thesis
    by (simp only: chunk_def st'_def)
qed

lemma next_state_inv:
  assumes inv: "scan_inv signature st"
    and full: "\<not> length (pending (stream st)) < buffer_size signature"
  shows "scan_inv signature (next_state signature st)"
    and "\<not> failed (stream (next_state signature st))"
    and "carried signature (next_state signature st) @ pending (stream (next_state signature st))
         = drop (buffer_size signature) (carried signature st @ pending (stream st))"
proof -
  let ?C = "buffer_size signature"
  let ?W = "carried signature st"
  let ?chunk = "take ?C (pending (stream st))"
  have lw: "length ?W = OVERLAP signature" by (rule length_carried [OF inv])
  have lc: "length ?chunk = ?C" using full by simp
  have lb: "length (buffer st) = ?C + OVERLAP signature" using inv by (simp add: scan_inv_def)
  have buf: "buffer (next_state signature st) = ?W @ ?chunk"
    using lc lb by (simp add: next_state_def Let_def)
  have br: "bytesRead (next_state signature st) = ?C"
    using lc by (simp add: next_state_def Let_def)
  show "scan_inv signature (next_state signature st)"
    using buf br lw lc by (simp add: scan_inv_def)
  show "\<not> failed (stream (next_state signature st))"
    using full by (simp add: next_state_def Let_def)
  have "carried signature (next_state signature st) = drop ?C (?W @ ?chunk)"
    using br buf OVERLAP_less_buffer_size [of signature] by (simp add: carried_def)
  moreover have "pending (stream (next_state signature st)) = drop ?C (pending (stream st))"
    by (simp add: next_state_def Let_def)
  moreover have "drop ?C (?W @ pending (stream st))
      = drop ?C (?W @ ?chunk) @ drop ?C (pending (stream st))"
  proof -
    have "?W @ pending (stream st) = (?W @ ?chunk) @ drop ?C (pending (stream st))"
      by simp
    moreover have "?C \<le> length (?W @ ?chunk)" using lc by simp
    ultimately show ?thesis
      by (metis drop_append diff_is_0_eq drop_0)
  qed
  ultimately show "carried signature (next_state signature st) @ pending (stream (next_state signature st))
         = drop (buffer_size signature) (carried signature st @ pending (stream st))"
    by simp
qed

text \<open>The sliding step on lists.\<close>

lemma sublist_slide:
  assumes len: "length needle = Suc ov"
    and miss: "\<not> sublist needle (take (ov + c) xs)"
  shows "sublist needle xs = sublist needle (drop c xs)"
proof
  assume "sublist needle (drop c xs)"
  then show "sublist needle xs"
    using sublist_drop sublist_order.order_trans by blast
next
  assume "sublist needle xs"
  then obtain ps ss where xs: "xs = ps @ needle @ ss"
    by (auto simp: sublist_def)
  have "c \<le> length ps"
  proof (rule ccontr)
    assume "\<not> c \<le> length ps"
    then have "length (ps @ needle) \<le> ov + c" using len by simp
    then have "take (ov + c) xs = (ps @ needle) @ take (ov + c - length (ps @ needle)) ss"
      unfolding xs by (simp del: append_assoc add: append_assoc [symmetric])
    then have "sublist needle (take (ov + c) xs)"
      by (simp add: sublist_def) blast
    with miss show False by simp
  qed
  then have "drop c xs = drop c ps @ needle @ ss"
    unfolding xs by simp
  then show "sublist needle (drop c xs)"
    by (auto simp: sublist_def)
qed

lemma scan_loop_result:
  assumes "scan_inv signature st" and "\<not> failed (stream st)" and "signature \<noteq> []"
  shows "fst (scan_loop signature st)
         = Inr (sublist signature (carried signature st @ pending (stream st)))"
  using assms
proof (induction signature st rule: scan_loop.induct)
  case (1 signature st)
  let ?C = "buffer_size signature"
  let ?W = "carried signature st"
  let ?R = "pending (stream st)"
  have lw: "length ?W = OVERLAP signature" by (rule length_carried [OF "1.prems"(1)])
  have lsig: "length signature = Suc (OVERLAP signature)"
    using "1.prems"(3) by (cases signature) (simp_all add: OVERLAP_def)
  have win: "take (OVERLAP signature + ?C) (?W @ ?R) = ?W @ take ?C ?R"
    using lw by simp
  note body = loop_body_inv [OF "1.prems"]
  show ?case
  proof (cases "sublist signature (?W @ take ?C ?R)")
    case True
    have "sublist signature (?W @ ?R)"
    proof -
      have "sublist (?W @ take ?C ?R) (?W @ ?R)"
        by (metis win sublist_take)
      with True show ?thesis
        using sublist_order.order_trans by blast
    qed
    with True body show ?thesis
      by (subst scan_loop.simps) simp
  next
    case miss: False
    show ?thesis
    proof (cases "length ?R < ?C")
      case True
      then have "take ?C ?R = ?R" by simp
      with miss True body show ?thesis
        by (subst scan_loop.simps) simp
    next
      case False
      from miss False body have again: "loop_body signature st = Again (next_state signature st)"
        by simp
      note nx = next_state_inv [OF "1.prems"(1) False]
      have "fst (scan_loop signature (next_state signature st))
            = Inr (sublist signature (drop ?C (?W @ ?R)))"
        using "1.IH" [OF again nx(1) nx(2) "1.prems"(3)] nx(3) by simp
      moreover have "sublist signature (?W @ ?R) = sublist signature (drop ?C (?W @ ?R))"
        using sublist_slide [OF lsig, of ?C "?W @ ?R"] miss win by simp
      ultimately show ?thesis
        using again by (subst scan_loop.simps) simp
    qed
  qed
qed

subsection \<open>What the matcher computes\<close>

lemma initial_state_inv: "scan_inv signature (initial_state signature file)"
  by (simp add: scan_inv_def initial_state_def)

lemma carried_initial:
  "carried signature (initial_state signature file) = replicate (OVERLAP signature) 0"
  by (auto simp: carried_def initial_state_def)

lemma containsSignatureBuffered_window:
  assumes "signature \<noteq> []"
  shows "containsSignatureBuffered f signature =
     Inr (f \<noteq> Unopenable \<and>
          sublist signature (replicate (length signature - 1) 0 @ delivered f))"
proof (cases f)
  case Unopenable
  with assms show ?thesis
    by (simp add: containsSignatureBuffered_def scan_run_def open_ifstream_def)
next
  case (Readable bs)
  have "fst (scan_loop signature (initial_state signature \<lparr>pending = bs, failed = False\<rparr>))
        = Inr (sublist signature (replicate (OVERLAP signature) 0 @ bs))"
    using scan_loop_result [OF initial_state_inv _ assms, of "\<lparr>pending = bs, failed = False\<rparr>"]
    by (simp add: carried_initial) (simp add: initial_state_def)
  with assms Readable show ?thesis
    by (auto simp: containsSignatureBuffered_def scan_run_def open_ifstream_def OVERLAP_def
             split: prod.splits)
next
  case (Faulty bs)
  have "fst (scan_loop signature (initial_state signature \<lparr>pending = bs, failed = False\<rparr>))
        = Inr (sublist signature (replicate (OVERLAP signature) 0 @ bs))"
    using scan_loop_result [OF initial_state_inv _ assms, of "\<lparr>pending = bs, failed = False\<rparr>"]
    by (simp add: carried_initial) (simp add: initial_state_def)
  with assms Faulty show ?thesis
    by (auto simp: containsSignatureBuffered_def scan_run_def open_ifstream_def OVERLAP_def
             split: prod.splits)
qed

lemma occurs_sublist:
  assumes "k + length S \<le> length B" and "take (length S) (drop k B) = S"
  shows "sublist S B"
proof -
  have "B = take k B @ take (length S) (drop k B) @ drop (length S) (drop k B)"
    by (metis append_take_drop_id)
  then have "B = take k B @ S @ drop (length S) (drop k B)"
    using assms(2) by simp
  then show ?thesis
    unfolding sublist_def by blast
qed

text \<open>
  C1. A non-empty signature that occurs in the content of a file at any byte offset \<open>k\<close> is
  found: the matcher returns true. The offset is arbitrary, so the start of the file, its
  very end and every position across the boundary of two read chunks are covered.
\<close>

theorem signature_present_detected:
  assumes "S \<noteq> []" and "k + length S \<le> length B" and "take (length S) (drop k B) = S"
  shows "containsSignatureBuffered (Readable B) S = Inr True"
proof -
  have "sublist S B" by (rule occurs_sublist [OF assms(2,3)])
  then have "sublist S (replicate (length S - 1) 0 @ B)"
    by (metis sublist_append)
  then show ?thesis
    by (simp add: containsSignatureBuffered_window [OF assms(1)])
qed

text \<open>
  The witness is the cross-boundary file of the test suite: the signature \<^verbatim>\<open>crypty\<close>
  starts at offset 4094 and ends past the first chunk of 4096 bytes.
\<close>

theorem signature_present_detected_witness:
  "crypty \<noteq> []
   \<and> 4094 + length crypty \<le> length (ELF_MAGIC @ replicate 4090 0x41 @ crypty @ replicate 4092 0x42)
   \<and> take (length crypty)
        (drop 4094 (ELF_MAGIC @ replicate 4090 0x41 @ crypty @ replicate 4092 0x42)) = crypty
   \<and> 4094 < buffer_size crypty \<and> buffer_size crypty < 4094 + length crypty
   \<and> containsSignatureBuffered
        (Readable (ELF_MAGIC @ replicate 4090 0x41 @ crypty @ replicate 4092 0x42)) crypty
       = Inr True"
proof -
  let ?B = "ELF_MAGIC @ replicate 4090 0x41 @ crypty @ replicate 4092 0x42"
  have ne: "crypty \<noteq> []" by (simp add: crypty_def)
  have len: "4094 + length crypty \<le> length ?B"
    by (simp add: crypty_def ELF_MAGIC_def)
  have at: "take (length crypty) (drop 4094 ?B) = crypty"
    by (simp add: crypty_def ELF_MAGIC_def)
  have bs: "4094 < buffer_size crypty \<and> buffer_size crypty < 4094 + length crypty"
    by (simp add: buffer_size_def MIN_BUFFER_SIZE_def EXTRA_BUFFER_def crypty_def)
  show ?thesis
    using ne len at bs signature_present_detected [OF ne len at] by blast
qed

subsection \<open>The buffer and the carry-over\<close>

lemma next_state_length:
  assumes "scan_inv signature st"
  shows "length (buffer (next_state signature st)) = buffer_size signature + OVERLAP signature"
proof -
  have "length (carried signature st) = OVERLAP signature"
    by (rule length_carried [OF assms])
  moreover have "length (buffer st) = buffer_size signature + OVERLAP signature"
    using assms by (simp add: scan_inv_def)
  ultimately show ?thesis
    by (simp add: next_state_def Let_def)
qed

lemma requests_next_state:
  "requests (next_state signature st) = requests st @ [buffer_size signature]"
  by (simp add: next_state_def Let_def)

lemma loop_body_cases:
  assumes "scan_inv signature st" and "signature \<noteq> []"
  obtains (halted) "failed (stream st)" "loop_body signature st = Done (Inr False) st"
    | (finished) b where "\<not> failed (stream st)" "loop_body signature st = Done (Inr b) (next_state signature st)"
    | (again) "\<not> failed (stream st)" "loop_body signature st = Again (next_state signature st)"
        "scan_inv signature (next_state signature st)"
proof (cases "failed (stream st)")
  case True
  then have "loop_body signature st = Done (Inr False) st"
    by (simp add: loop_body_def)
  with True show ?thesis by (rule halted)
next
  case False
  note body = loop_body_inv [OF assms(1) False assms(2)]
  show ?thesis
  proof (cases "loop_body signature st")
    case (Done r st')
    with body have "\<exists>b. loop_body signature st = Done (Inr b) (next_state signature st)"
      by (auto split: if_splits)
    then show ?thesis using False finished by blast
  next
    case (Again st')
    with body have full: "\<not> length (pending (stream st)) < buffer_size signature"
      and eq: "loop_body signature st = Again (next_state signature st)"
      by (auto split: if_splits)
    show ?thesis
      using False eq next_state_inv(1) [OF assms(1) full] by (rule again)
  qed
qed

lemma loop_heads_inv:
  assumes "scan_inv signature st" and "signature \<noteq> []"
    and "s \<in> set (loop_heads signature st)"
  shows "scan_inv signature s"
  using assms
proof (induction signature st rule: loop_heads.induct)
  case (1 signature st)
  from "1.prems"(1,2) show ?case
  proof (cases rule: loop_body_cases)
    case halted
    with "1.prems" show ?thesis
      by (subst (asm) loop_heads.simps) simp
  next
    case (finished b)
    with "1.prems" show ?thesis
      by (subst (asm) loop_heads.simps) simp
  next
    case again
    from "1.prems"(3) have "s = st \<or> s \<in> set (loop_heads signature (next_state signature st))"
      by (subst (asm) loop_heads.simps) (simp add: again(2))
    then show ?thesis
      using "1.prems"(1) "1.IH" [OF again(2) again(3) "1.prems"(2)] by blast
  qed
qed

lemma scan_loop_final:
  assumes "scan_inv signature st" and "signature \<noteq> []"
  shows "length (buffer (snd (scan_loop signature st))) = buffer_size signature + OVERLAP signature
       \<and> set (requests (snd (scan_loop signature st)))
          \<subseteq> insert (buffer_size signature) (set (requests st))"
  using assms
proof (induction signature st rule: scan_loop.induct)
  case (1 signature st)
  from "1.prems" show ?case
  proof (cases rule: loop_body_cases)
    case halted
    then have "scan_loop signature st = (Inr False, st)"
      by (subst scan_loop.simps) simp
    with "1.prems"(1) show ?thesis
      by (auto simp: scan_inv_def)
  next
    case (finished b)
    then have "scan_loop signature st = (Inr b, next_state signature st)"
      by (subst scan_loop.simps) simp
    then show ?thesis
      using next_state_length [OF "1.prems"(1)]
      by (auto simp: requests_next_state)
  next
    case again
    then have "scan_loop signature st = scan_loop signature (next_state signature st)"
      by (subst scan_loop.simps) simp
    then show ?thesis
      using "1.IH" [OF again(2) again(3) "1.prems"(2)]
      by (auto simp: requests_next_state)
  qed
qed

lemma allocation_size:
  "buffer_size signature + OVERLAP signature
   = max 4096 (length signature + 1024) + (length signature - 1)"
  by (simp add: buffer_size_def OVERLAP_def MIN_BUFFER_SIZE_def EXTRA_BUFFER_def)

text \<open>
  C9. For a non-empty signature the working buffer is allocated with
  \<open>max 4096 (len + 1024) + (len - 1)\<close> bytes, whatever the file; it has this length at every
  loop head and at the end of the scan, and every read asks for exactly
  \<open>max 4096 (len + 1024)\<close> bytes, hence never for more than the chunk size.
\<close>

theorem working_buffer_bounded:
  assumes "signature \<noteq> []" and "scan_run f signature = (r, Some st)"
  shows "length (buffer (initial_state signature (open_ifstream f)))
           = max 4096 (length signature + 1024) + (length signature - 1)
       \<and> (\<forall>s \<in> set (loop_heads signature (initial_state signature (open_ifstream f))).
            length (buffer s) = max 4096 (length signature + 1024) + (length signature - 1))
       \<and> length (buffer st) = max 4096 (length signature + 1024) + (length signature - 1)
       \<and> (\<forall>n \<in> set (requests st). n = max 4096 (length signature + 1024))"
proof -
  let ?st0 = "initial_state signature (open_ifstream f)"
  have inv0: "scan_inv signature ?st0" by (rule initial_state_inv)
  have a: "length (buffer ?st0) = buffer_size signature + OVERLAP signature"
    using inv0 by (simp add: scan_inv_def)
  have b: "\<forall>s \<in> set (loop_heads signature ?st0).
             length (buffer s) = buffer_size signature + OVERLAP signature"
    using loop_heads_inv [OF inv0 assms(1)] by (simp add: scan_inv_def)
  from assms have st: "st = snd (scan_loop signature ?st0)"
    by (auto simp: scan_run_def Let_def split: if_splits prod.splits)
  have c: "length (buffer st) = buffer_size signature + OVERLAP signature"
    and d: "set (requests st) \<subseteq> {buffer_size signature}"
    using scan_loop_final [OF inv0 assms(1)] unfolding st
    by (simp_all add: initial_state_def)
  have e: "\<forall>n \<in> set (requests st). n = max 4096 (length signature + 1024)"
    using d by (auto simp: buffer_size_def MIN_BUFFER_SIZE_def EXTRA_BUFFER_def)
  show ?thesis
    using a b c e by (simp only: allocation_size) 
qed

theorem working_buffer_bounded_witness:
  "crypty \<noteq> []
   \<and> (\<exists>r st. scan_run (Readable ELF_MAGIC) crypty = (r, Some st)
        \<and> length (buffer st) = 4101 \<and> set (requests st) \<subseteq> {4096})"
proof -
  have ne: "crypty \<noteq> []" by (simp add: crypty_def)
  define res where
    "res = scan_loop crypty (initial_state crypty (open_ifstream (Readable ELF_MAGIC)))"
  have run: "scan_run (Readable ELF_MAGIC) crypty = (fst res, Some (snd res))"
    using ne by (simp add: scan_run_def open_ifstream_def Let_def case_prod_beta res_def)
  have "length (buffer (snd res)) = 4101 \<and> set (requests (snd res)) \<subseteq> {4096}"
    using working_buffer_bounded [OF ne run] by (auto simp: crypty_def)
  with ne run show ?thesis by blast
qed

text \<open>
  C10. For a non-empty signature, whenever the loop head is reached \<^verbatim>\<open>bytesRead\<close> is 0 or
  a full chunk, and a chunk is longer than \<^verbatim>\<open>OVERLAP\<close>; so the branch for
  \<open>0 < bytesRead < OVERLAP\<close> is never taken, the carry-over copies within the bounds of the
  buffer, and the function never leaves with the out-of-bounds error.
\<close>

theorem carry_over_in_bounds:
  assumes "signature \<noteq> []"
    and "st \<in> set (loop_heads signature (initial_state signature (open_ifstream f)))"
  shows "(bytesRead st = 0 \<or> bytesRead st = buffer_size signature)
       \<and> OVERLAP signature < buffer_size signature
       \<and> \<not> (0 < bytesRead st \<and> bytesRead st < OVERLAP signature)
       \<and> (\<exists>buf. carry_over signature st = Inr buf \<and> length buf = length (buffer st))
       \<and> containsSignatureBuffered f signature \<noteq> Inl OutOfBounds"
proof -
  have inv: "scan_inv signature st"
    by (rule loop_heads_inv [OF initial_state_inv assms])
  have lt: "OVERLAP signature < buffer_size signature"
    by (rule OVERLAP_less_buffer_size)
  have br: "bytesRead st = 0 \<or> bytesRead st = buffer_size signature"
    using inv by (simp add: scan_inv_def)
  have co: "carry_over signature st
            = Inr (carried signature st @ drop (OVERLAP signature) (buffer st))"
    by (rule carry_over_inv [OF inv])
  have "length (carried signature st @ drop (OVERLAP signature) (buffer st)) = length (buffer st)"
    using length_carried [OF inv] inv by (simp add: scan_inv_def)
  with co have ex: "\<exists>buf. carry_over signature st = Inr buf \<and> length buf = length (buffer st)"
    by simp
  have res: "containsSignatureBuffered f signature \<noteq> Inl OutOfBounds"
    by (simp add: containsSignatureBuffered_window [OF assms(1)])
  from br lt have "\<not> (0 < bytesRead st \<and> bytesRead st < OVERLAP signature)"
    by auto
  with br lt ex res show ?thesis by blast
qed

lemma crypty_not_in_padding:
  "\<not> sublist crypty (replicate m 0 @ replicate k 0x41)"
proof
  assume "sublist crypty (replicate m 0 @ replicate k 0x41)"
  then have "set crypty \<subseteq> set (replicate m (0::byte) @ replicate k 0x41)"
    by (rule set_mono_sublist)
  moreover have "(0x63::byte) \<in> set crypty" by (simp add: crypty_def)
  ultimately have "(0x63::byte) \<in> set (replicate m (0::byte) @ replicate k 0x41)" by blast
  then show False by (auto split: if_splits)
qed

lemma long_clean_second_head:
  "loop_body crypty (initial_state crypty (open_ifstream (Readable long_clean)))
   = Again (next_state crypty (initial_state crypty (open_ifstream (Readable long_clean))))"
proof -
  let ?st0 = "initial_state crypty (open_ifstream (Readable long_clean))"
  have ne: "crypty \<noteq> []" by (simp add: crypty_def)
  have ok: "\<not> failed (stream ?st0)" by (simp add: initial_state_def open_ifstream_def)
  have pend: "pending (stream ?st0) = replicate 9000 0x41"
    by (simp add: initial_state_def open_ifstream_def long_clean_def)
  have bsz: "buffer_size crypty = 4096"
    by (simp add: buffer_size_def MIN_BUFFER_SIZE_def EXTRA_BUFFER_def crypty_def)
  have miss: "\<not> sublist crypty (carried crypty ?st0 @ take (buffer_size crypty) (pending (stream ?st0)))"
    unfolding carried_initial pend bsz using crypty_not_in_padding [of "OVERLAP crypty" 4096]
    by simp
  have full: "\<not> length (pending (stream ?st0)) < buffer_size crypty"
    unfolding pend bsz by simp
  show ?thesis
    using loop_body_inv [OF initial_state_inv ok ne] miss full by simp
qed

text \<open>
  The witness is the second loop head of the scan of \<open>long_clean\<close>: the first read was a
  full chunk, \<^verbatim>\<open>bytesRead\<close> is 4096, and the carry-over copies the last five bytes of the
  buffer to its front.
\<close>

theorem carry_over_in_bounds_witness:
  "crypty \<noteq> []
   \<and> next_state crypty (initial_state crypty (open_ifstream (Readable long_clean)))
       \<in> set (loop_heads crypty (initial_state crypty (open_ifstream (Readable long_clean))))
   \<and> bytesRead (next_state crypty (initial_state crypty (open_ifstream (Readable long_clean))))
       = 4096
   \<and> OVERLAP crypty = 5
   \<and> buffer (next_state crypty (initial_state crypty (open_ifstream (Readable long_clean))))
       = replicate 5 0 @ replicate 4096 0x41
   \<and> carry_over crypty
         (next_state crypty (initial_state crypty (open_ifstream (Readable long_clean))))
       = Inr (replicate 5 0x41 @ replicate 4096 0x41)
   \<and> containsSignatureBuffered (Readable long_clean) crypty \<noteq> Inl OutOfBounds"
proof -
  let ?st0 = "initial_state crypty (open_ifstream (Readable long_clean))"
  let ?st1 = "next_state crypty ?st0"
  have ne: "crypty \<noteq> []" by (simp add: crypty_def)
  have bsz: "buffer_size crypty = 4096"
    by (simp add: buffer_size_def MIN_BUFFER_SIZE_def EXTRA_BUFFER_def crypty_def)
  have ov: "OVERLAP crypty = 5" by (simp add: OVERLAP_def crypty_def)
  have hd: "?st1 \<in> set (loop_heads crypty ?st0)"
    by (subst loop_heads.simps, subst long_clean_second_head)
       (simp, subst loop_heads.simps, simp)
  have br: "bytesRead ?st1 = 4096"
    by (simp add: next_state_def Let_def bsz initial_state_def open_ifstream_def long_clean_def)
  have buf: "buffer ?st1 = replicate 5 0 @ replicate 4096 0x41"
    by (simp add: next_state_def Let_def bsz ov carried_initial)
       (simp add: initial_state_def open_ifstream_def long_clean_def bsz ov)
  note inst = carry_over_in_bounds [OF ne hd]
  from inst obtain b where co: "carry_over crypty ?st1 = Inr b" by blast
  have "carry_over crypty ?st1 = Inr (replicate 5 0x41 @ replicate 4096 0x41)"
    by (simp add: carry_over_def std_copy_def br buf ov)
  moreover have "containsSignatureBuffered (Readable long_clean) crypty \<noteq> Inl OutOfBounds"
    using inst by blast
  ultimately show ?thesis
    using ne hd br ov buf by blast
qed

section \<open>Properties of the classifier\<close>

lemma sint_byte_eq: "(sint (b :: byte) = sint (c :: byte)) = (b = c)"
  using word_eq_iff_signed [where ?'a = int, of b c] by auto

lemma take4: "4 \<le> length bs \<Longrightarrow> take 4 bs = [bs ! 0, bs ! 1, bs ! 2, bs ! 3]"
  by (cases bs; cases "tl bs"; cases "tl (tl bs)"; cases "tl (tl (tl bs))") auto 

lemma isELFFile_iff:
  "isELFFile f \<longleftrightarrow> f \<noteq> Unopenable \<and> 4 \<le> length (delivered f) \<and> take 4 (delivered f) = ELF_MAGIC"
proof (cases f)
  case Unopenable
  then show ?thesis by (simp add: isELFFile_def open_ifstream_def)
next
  case (Readable bs)
  show ?thesis
  proof (cases "4 \<le> length bs")
    case True
    then show ?thesis using Readable take4 [OF True] sint_byte_eq [of "bs ! 0" "0x7F"]
      sint_byte_eq [of "bs ! 1" "0x45"] sint_byte_eq [of "bs ! 2" "0x4C"] sint_byte_eq [of "bs ! 3" "0x46"]
      by (simp add: isELFFile_def open_ifstream_def istream_read_def ELF_MAGIC_def Let_def)
  next
    case False
    then show ?thesis using Readable
      by (simp add: isELFFile_def open_ifstream_def istream_read_def Let_def)
  qed
next
  case (Faulty bs)
  show ?thesis
  proof (cases "4 \<le> length bs")
    case True
    then show ?thesis using Faulty take4 [OF True] sint_byte_eq [of "bs ! 0" "0x7F"]
      sint_byte_eq [of "bs ! 1" "0x45"] sint_byte_eq [of "bs ! 2" "0x4C"] sint_byte_eq [of "bs ! 3" "0x46"]
      by (simp add: isELFFile_def open_ifstream_def istream_read_def ELF_MAGIC_def Let_def)
  next
    case False
    then show ?thesis using Faulty
      by (simp add: isELFFile_def open_ifstream_def istream_read_def Let_def)
  qed
qed

text \<open>
  C7. \<^verbatim>\<open>isELFFile\<close> is true exactly when the file can be opened, delivers at least four
  bytes, and the first four are \<^verbatim>\<open>7F 45 4C 46\<close>. The function returns a plain truth value:
  a file that cannot be opened, an empty file and a file of fewer than four readable bytes
  give false, and no error is signalled.
\<close>

theorem isELFFile_magic:
  "isELFFile f \<longleftrightarrow>
     f \<noteq> Unopenable \<and> 4 \<le> length (delivered f) \<and> take 4 (delivered f) = ELF_MAGIC"
  by (rule isELFFile_iff)

section \<open>Properties of the thread pool\<close>




















lemma step_Finish_Returned:
  assumes "i < length (workers s)" and "workers s ! i = Running (Returned es)"
  shows "step (Finish i) s =
     Some (s\<lparr>workers := (workers s)[i := Waiting], sink := sink s @ es,
             executed := executed s @ [Returned es]\<rparr>)"
  using assms by simp

lemma step_Finish_Threw:
  assumes "i < length (workers s)" and "workers s ! i = Running (Threw es e)"
  shows "step (Finish i) s =
     Some (s\<lparr>workers := (workers s)[i := Waiting], sink := sink s @ es,
             executed := executed s @ [Threw es e]\<rparr>)"
  using assms by simp

text \<open>
  C6 as stated fails: a unit that throws is run to its end by the worker, the pool shuts
  down, and the sink is empty. No error record was written.
\<close>

theorem swallowed_exception_counterexample:
  "exec [Submit (Threw [] (StdException ''boom'')), Claim 0, Finish 0, BeginShutdown, Exit 0, Join]
        (pool_init 1)
   = Some \<lparr>created = True, workers = [Exited], tasks = [], stop = True, sink = [],
           submitted = [Threw [] (StdException ''boom'')],
           executed = [Threw [] (StdException ''boom'')]\<rparr>"
  by (simp add: pool_init_def boot_def)

text \<open>
  C6, amended. The worker catches whatever a unit throws: it is back at the head of its
  loop, able to claim the next unit, and nothing but what the unit wrote itself has reached
  the sink, since the worker's handler is empty. The error record is the work of the handler
  inside the scan unit of \<^verbatim>\<open>main\<close>, for a \<^verbatim>\<open>std::exception\<close> only; any other exception
  leaves the unit and is dropped by the worker.
\<close>

theorem worker_catches_everything:
  assumes "i < length (workers s)" and "workers s ! i = Running (Threw es e)"
  shows "(\<exists>s'. step (Finish i) s = Some s' \<and> workers s' ! i = Waiting
              \<and> sink s' = sink s @ es \<and> executed s' = executed s @ [Threw es e]
              \<and> (\<forall>t q. tasks s' = t # q \<longrightarrow>
                    step (Claim i) s'
                    = Some (s'\<lparr>workers := (workers s')[i := Running t], tasks := q\<rparr>)))
       \<and> catch_std_exception p (Threw es (StdException msg)) = Returned (es @ [ErrorRec p msg])
       \<and> catch_std_exception p (Threw es OtherException) = Threw es OtherException"
proof -
  let ?s' = "s\<lparr>workers := (workers s)[i := Waiting], sink := sink s @ es,
             executed := executed s @ [Threw es e]\<rparr>"
  have st: "step (Finish i) s = Some ?s'"
    by (rule step_Finish_Threw [OF assms])
  have w: "workers ?s' ! i = Waiting" using assms(1) by simp
  have cl: "\<forall>t q. tasks ?s' = t # q \<longrightarrow>
      step (Claim i) ?s' = Some (?s'\<lparr>workers := (workers ?s')[i := Running t], tasks := q\<rparr>)"
    using assms(1) by simp
  have "\<exists>s'. step (Finish i) s = Some s' \<and> workers s' ! i = Waiting
              \<and> sink s' = sink s @ es \<and> executed s' = executed s @ [Threw es e]
              \<and> (\<forall>t q. tasks s' = t # q \<longrightarrow>
                    step (Claim i) s'
                    = Some (s'\<lparr>workers := (workers s')[i := Running t], tasks := q\<rparr>))"
    using st w cl by (intro exI [of _ ?s']) simp
  then show ?thesis
    by (simp add: catch_std_exception_def)
qed

theorem worker_catches_everything_witness:
  "(0::nat) < length (workers (pool_init 1\<lparr>workers := [Running (Threw [] OtherException)],
                                            tasks := [Returned []]\<rparr>))
   \<and> (\<exists>s'. step (Finish 0) (pool_init 1\<lparr>workers := [Running (Threw [] OtherException)],
                                         tasks := [Returned []]\<rparr>) = Some s'
        \<and> workers s' ! 0 = Waiting \<and> sink s' = []
        \<and> step (Claim 0) s' = Some (s'\<lparr>workers := [Running (Returned [])], tasks := []\<rparr>))
   \<and> catch_std_exception ''inf1'' (Threw [] (StdException ''bad_alloc''))
       = Returned [ErrorRec ''inf1'' ''bad_alloc'']"
proof -
  let ?s = "pool_init 1\<lparr>workers := [Running (Threw [] OtherException)], tasks := [Returned []]\<rparr>"
  have i: "0 < length (workers ?s)" by simp
  have w: "workers ?s ! 0 = Running (Threw [] OtherException)" by simp
  have z: "sink ?s = []" "tasks ?s = [Returned []]" by (simp_all add: pool_init_def boot_def)
  show ?thesis
    using i z worker_catches_everything [OF i w, of "''inf1''" "''bad_alloc''"]
    by (auto simp: pool_init_def boot_def)
qed

section \<open>Properties of the scan unit\<close>

lemma containsSignatureBuffered_defined:
  "containsSignatureBuffered f signature = Inr False
   \<or> containsSignatureBuffered f signature = Inr True"
proof (cases "signature = []")
  case True
  then show ?thesis by (simp add: containsSignatureBuffered_def scan_run_def)
next
  case False
  then show ?thesis by (simp add: containsSignatureBuffered_window)
qed

lemma containsSignatureBuffered_Unopenable:
  "containsSignatureBuffered Unopenable signature = Inr False"
  by (simp add: containsSignatureBuffered_def scan_run_def open_ifstream_def)

lemma containsSignatureBuffered_Faulty:
  "containsSignatureBuffered (Faulty bs) signature = containsSignatureBuffered (Readable bs) signature"
  by (simp add: containsSignatureBuffered_def scan_run_def open_ifstream_def)

lemma scan_unit_Unopenable:
  "scan_unit p signature Unopenable f2 = Returned []"
  "scan_unit p signature f1 Unopenable = Returned []"
  by (simp_all add: scan_unit_def scan_try_def catch_std_exception_def
        containsSignatureBuffered_Unopenable isELFFile_def open_ifstream_def)

lemma scan_unit_Faulty:
  "scan_unit p signature f1 (Faulty bs) = scan_unit p signature f1 (Readable bs)"
  by (simp add: scan_unit_def scan_try_def containsSignatureBuffered_Faulty)

lemma scan_unit_cases:
  "scan_unit p signature f1 f2 = Returned []
   \<or> scan_unit p signature f1 f2 = Returned [InfectedRec p]"
  using containsSignatureBuffered_defined [of f2 signature]
  by (auto simp: scan_unit_def scan_try_def catch_std_exception_def)

text \<open>
  C3 as stated fails: a file that cannot be opened, at the first or at the second open, and
  a file whose read fails in mid-scan leave no record at all, and in particular no error
  record.
\<close>

theorem unopenable_file_counterexample:
  "scan_unit ''inf1'' crypty Unopenable Unopenable = Returned []
   \<and> scan_unit ''inf1'' crypty (Readable infected_elf) Unopenable = Returned []
   \<and> scan_unit ''inf1'' crypty (Readable infected_elf) (Faulty ELF_MAGIC) = Returned []"
proof -
  have elf: "isELFFile (Readable infected_elf)"
    by (simp add: isELFFile_iff infected_elf_def ELF_MAGIC_def)
  have "replicate (length crypty - 1) (0::byte) = [0, 0, 0, 0, 0]"
    by (simp add: crypty_def numeral_eq_Suc)
  then have "\<not> sublist crypty (replicate (length crypty - 1) 0 @ ELF_MAGIC)"
    by (simp add: crypty_def ELF_MAGIC_def sublist_code(3))
  then have "containsSignatureBuffered (Faulty ELF_MAGIC) crypty = Inr False"
    by (simp add: containsSignatureBuffered_window crypty_def)
  with elf have "scan_unit ''inf1'' crypty (Readable infected_elf) (Faulty ELF_MAGIC) = Returned []"
    by (simp add: scan_unit_def scan_try_def catch_std_exception_def)
  then show ?thesis
    by (simp add: scan_unit_Unopenable)
qed

text \<open>
  C3, amended. Take a scan unit whose access to the file fails: the file cannot be opened,
  by the classifier or by the matcher, or a read of the matcher fails in mid-scan. If the
  file cannot be opened the unit returns without writing any record. A read error ends the
  scan as the end of the file does, and the unit then writes nothing or the infected record.
  In each of these cases no error record is written, and the worker that ran the unit is back
  at the head of its loop: the failure brings down no worker, and the scan of the other files
  goes on.
\<close>

theorem access_failure_silent:
  assumes "i < length (workers s)"
    and "workers s ! i = Running (scan_unit p signature f1 f2)"
    and "f1 = Unopenable \<or> f2 = Unopenable \<or> f2 = Faulty bs"
  shows "(f1 = Unopenable \<or> f2 = Unopenable \<longrightarrow> scan_unit p signature f1 f2 = Returned [])
       \<and> scan_unit p signature f1 (Faulty bs) = scan_unit p signature f1 (Readable bs)
       \<and> (scan_unit p signature f1 f2 = Returned []
          \<or> scan_unit p signature f1 f2 = Returned [InfectedRec p])
       \<and> (\<exists>s'. step (Finish i) s = Some s' \<and> workers s' ! i = Waiting
              \<and> (f1 = Unopenable \<or> f2 = Unopenable \<longrightarrow> sink s' = sink s))"
proof -
  have a: "f1 = Unopenable \<or> f2 = Unopenable \<longrightarrow> scan_unit p signature f1 f2 = Returned []"
    by (auto simp: scan_unit_Unopenable)
  note b = scan_unit_Faulty [of p signature f1 bs]
  note c = scan_unit_cases [of p signature f1 f2]
  from c obtain es where es: "scan_unit p signature f1 f2 = Returned es" by blast
  have st: "step (Finish i) s =
     Some (s\<lparr>workers := (workers s)[i := Waiting], sink := sink s @ es,
             executed := executed s @ [Returned es]\<rparr>)"
    using step_Finish_Returned [OF assms(1)] assms(2) es by simp
  have d: "\<exists>s'. step (Finish i) s = Some s' \<and> workers s' ! i = Waiting
              \<and> (f1 = Unopenable \<or> f2 = Unopenable \<longrightarrow> sink s' = sink s)"
    using st a es assms(1) by auto
  from a b c d show ?thesis by blast
qed

text \<open>
  Two instances: a file that can no longer be opened when the matcher comes to it, and a
  file whose read fails after the four bytes of the ELF magic.
\<close>

theorem access_failure_silent_witness:
  "(0::nat) < length (workers (pool_init 1\<lparr>workers :=
        [Running (scan_unit ''inf1'' crypty (Readable infected_elf) Unopenable)]\<rparr>))
   \<and> scan_unit ''inf1'' crypty (Readable infected_elf) Unopenable = Returned []
   \<and> (\<exists>s'. step (Finish 0) (pool_init 1\<lparr>workers :=
        [Running (scan_unit ''inf1'' crypty (Readable infected_elf) Unopenable)]\<rparr>) = Some s'
        \<and> workers s' ! 0 = Waiting \<and> sink s' = [])
   \<and> (0::nat) < length (workers (pool_init 1\<lparr>workers :=
        [Running (scan_unit ''inf1'' crypty (Readable infected_elf) (Faulty ELF_MAGIC))]\<rparr>))
   \<and> scan_unit ''inf1'' crypty (Readable infected_elf) (Faulty ELF_MAGIC)
       = scan_unit ''inf1'' crypty (Readable infected_elf) (Readable ELF_MAGIC)
   \<and> (\<exists>s'. step (Finish 0) (pool_init 1\<lparr>workers :=
        [Running (scan_unit ''inf1'' crypty (Readable infected_elf) (Faulty ELF_MAGIC))]\<rparr>)
          = Some s' \<and> workers s' ! 0 = Waiting)"
proof -
  let ?u = "scan_unit ''inf1'' crypty (Readable infected_elf) Unopenable"
  let ?s = "pool_init 1\<lparr>workers := [Running ?u]\<rparr>"
  let ?v = "scan_unit ''inf1'' crypty (Readable infected_elf) (Faulty ELF_MAGIC)"
  let ?r = "pool_init 1\<lparr>workers := [Running ?v]\<rparr>"
  have i: "0 < length (workers ?s)" by simp
  have w: "workers ?s ! 0 = Running ?u" by simp
  have z: "sink ?s = []" by (simp add: pool_init_def boot_def)
  have fa: "Readable infected_elf = Unopenable \<or> (Unopenable :: disk_file) = Unopenable
            \<or> Unopenable = Faulty []" by simp
  have j: "0 < length (workers ?r)" by simp
  have x: "workers ?r ! 0 = Running ?v" by simp
  have fb: "Readable infected_elf = Unopenable \<or> Faulty ELF_MAGIC = Unopenable
            \<or> Faulty ELF_MAGIC = Faulty ELF_MAGIC" by simp
  have one: "?u = Returned [] \<and> (\<exists>s'. step (Finish 0) ?s = Some s'
        \<and> workers s' ! 0 = Waiting \<and> sink s' = [])"
    using z access_failure_silent [OF i w fa] by auto
  have two: "?v = scan_unit ''inf1'' crypty (Readable infected_elf) (Readable ELF_MAGIC)
     \<and> (\<exists>s'. step (Finish 0) ?r = Some s' \<and> workers s' ! 0 = Waiting)"
    using access_failure_silent [OF j x fb] by blast
  from i j one two show ?thesis by blast
qed

lemma scan_unit_infected_elf:
  "scan_unit ''inf1'' crypty (Readable infected_elf) (Readable infected_elf)
   = Returned [InfectedRec ''inf1'']"
proof -
  have elf: "isELFFile (Readable infected_elf)"
    by (simp add: isELFFile_iff infected_elf_def ELF_MAGIC_def)
  have "sublist crypty (replicate (length crypty - 1) 0 @ infected_elf)"
    unfolding infected_elf_def by (metis append_assoc sublist_append_leftI)
  then have "containsSignatureBuffered (Readable infected_elf) crypty = Inr True"
    by (simp add: containsSignatureBuffered_window crypty_def)
  with elf show ?thesis
    by (simp add: scan_unit_def scan_try_def catch_std_exception_def)
qed

text \<open>
  C2. The matcher is to return false when the signature does not occur in the file. The
  first search window starts at the zero-filled front of the buffer, so a signature that
  begins with zero bytes is reported in a file that holds only the rest of it: the two-byte
  signature \<^verbatim>\<open>00 7F\<close> is found in a file that consists of the ELF magic alone, and the
  scan unit reports the file as infected.
\<close>

theorem zero_prefix_false_positive:
  "containsSignatureBuffered (Readable [0x7F, 0x45, 0x4C, 0x46]) [0x00, 0x7F] = Inr True
   \<and> \<not> sublist [0x00, 0x7F :: byte] [0x7F, 0x45, 0x4C, 0x46]
   \<and> scan_unit ''inf1'' [0x00, 0x7F] (Readable [0x7F, 0x45, 0x4C, 0x46])
        (Readable [0x7F, 0x45, 0x4C, 0x46]) = Returned [InfectedRec ''inf1'']"
proof -
  have found: "containsSignatureBuffered (Readable [0x7F, 0x45, 0x4C, 0x46]) [0x00, 0x7F]
               = Inr True"
    by (simp add: containsSignatureBuffered_window sublist_code(3))
  have absent: "\<not> sublist [0x00, 0x7F :: byte] [0x7F, 0x45, 0x4C, 0x46]"
    by (simp add: sublist_code(3))
  have elf: "isELFFile (Readable [0x7F, 0x45, 0x4C, 0x46])"
    by (simp add: isELFFile_iff ELF_MAGIC_def)
  from found absent elf show ?thesis
    by (simp add: scan_unit_def scan_try_def catch_std_exception_def)
qed

section \<open>Properties of the main thread\<close>

lemma main_demo_env:
  "main demo_env =
     ([Print ScanStarted, CreatePool 1, Submit (Returned [InfectedRec ''inf1'']),
       Print ScanCompleted, ReadStdin, BeginShutdown, Join], 0)"
  by (simp add: main_def demo_env_def scan_unit_infected_elf) (simp add: crypty_def)

text \<open>
  C4. The terminal status is to be reported after the shutdown of the pool has returned.
  \<^verbatim>\<open>main\<close> writes \<^verbatim>\<open>Scan completed.\<close> after the last \<^verbatim>\<open>submit\<close> and before the destructor
  of the pool runs. On \<open>demo_env\<close>, after the first four actions of \<^verbatim>\<open>main\<close> the line is
  written while the unit is still queued and \<^verbatim>\<open>stop\<close> is not set; and in the run
  \<open>demo_run\<close> the infected record follows the line.
\<close>

theorem completion_reported_before_shutdown:
  "main demo_env =
     ([Print ScanStarted, CreatePool 1, Submit (Returned [InfectedRec ''inf1'']),
       Print ScanCompleted, ReadStdin, BeginShutdown, Join], 0)
   \<and> exec (take 4 (fst (main demo_env))) boot =
       Some \<lparr>created = True, workers = [Waiting], tasks = [Returned [InfectedRec ''inf1'']],
             stop = False, sink = [ScanStarted, ScanCompleted],
             submitted = [Returned [InfectedRec ''inf1'']], executed = []\<rparr>
   \<and> filter (\<lambda>a. \<not> by_worker a) demo_run = fst (main demo_env)
   \<and> exec demo_run boot =
       Some \<lparr>created = True, workers = [Exited], tasks = [], stop = True,
             sink = [ScanStarted, ScanCompleted, InfectedRec ''inf1''],
             submitted = [Returned [InfectedRec ''inf1'']],
             executed = [Returned [InfectedRec ''inf1'']]\<rparr>"
  by (simp add: main_demo_env demo_run_def boot_def numeral_eq_Suc)

lemma main_empty_signature:
  assumes "argc env = 3" and "signature_file env = Inr []"
  shows "main env = ([Print (ConfigError ''Signature file is empty.'')], 1)"
  using assms by (simp add: main_def)

text \<open>
  C8. With an empty signature file \<^verbatim>\<open>main\<close> writes the error and returns 1: no pool is
  created, no unit is submitted, nothing is scanned. And the matcher, given an empty
  signature, answers false for every file.
\<close>

theorem empty_signature_rejected:
  assumes "argc env = 3" and "signature_file env = Inr []"
  shows "main env = ([Print (ConfigError ''Signature file is empty.'')], 1)
       \<and> units_of (fst (main env)) = []
       \<and> exec (fst (main env)) boot
           = Some (boot\<lparr>sink := [ConfigError ''Signature file is empty.'']\<rparr>)
       \<and> containsSignatureBuffered f [] = Inr False"
  using main_empty_signature [OF assms]
  by (simp add: boot_def containsSignatureBuffered_def scan_run_def)

theorem empty_signature_rejected_witness:
  "argc (demo_env\<lparr>signature_file := Inr []\<rparr>) = 3
   \<and> signature_file (demo_env\<lparr>signature_file := Inr []\<rparr>) = Inr []
   \<and> main (demo_env\<lparr>signature_file := Inr []\<rparr>)
       = ([Print (ConfigError ''Signature file is empty.'')], 1)
   \<and> containsSignatureBuffered (Readable infected_elf) [] = Inr False"
proof -
  let ?env = "demo_env\<lparr>signature_file := Inr []\<rparr>"
  have a: "argc ?env = 3" by (simp add: demo_env_def)
  have b: "signature_file ?env = Inr []" by simp
  show ?thesis
    using a b empty_signature_rejected [OF a b, of "Readable infected_elf"] by blast
qed

end
